theory Spec2Isabelle
  imports Complex_Main "HOL-Library.Multiset"
begin

section \<open>Model of the notebook\<close>

text \<open>
  The notebook \<^verbatim>\<open>fine-tuning-lstm.ipynb\<close> attaches a mean-pooling classification head to a
  pretrained LSTM encoder, trains it on binarised toxicity scores and writes a submission
  file. The definitions below follow its cells. Array values (float32 in the notebook) are
  real numbers here: rounding is not modelled. A division by zero, which produces no real
  number (IEEE arithmetic gives inf or nan and raises nothing), is the value \<open>None\<close>.
\<close>

subsection \<open>Arrays\<close>

text \<open>
  An array of shape \<open>(T, N, C)\<close> is a list of \<open>T\<close> matrices, each a list of \<open>N\<close> rows of
  \<open>C\<close> entries. \<open>has_shape3\<close> says that the nested list is such an array; \<open>shape3\<close> reads
  the shape off the first matrix and its first row, which is the shape of every array
  with \<open>T > 0\<close> and \<open>N > 0\<close>.
\<close>

type_synonym ndarray2 = "real list list"
type_synonym ndarray3 = "real list list list"

definition has_shape3 :: "'a list list list \<Rightarrow> nat \<Rightarrow> nat \<Rightarrow> nat \<Rightarrow> bool" where
  "has_shape3 data T N C =
     (length data = T \<and> list_all (\<lambda>m. length m = N \<and> list_all (\<lambda>r. length r = C) m) data)"

definition shape3 :: "'a list list list \<Rightarrow> nat \<times> nat \<times> nat" where
  "shape3 data =
     (length data,
      (case data of [] \<Rightarrow> 0 | m # _ \<Rightarrow> length m),
      (case data of (r # _) # _ \<Rightarrow> length r | _ \<Rightarrow> 0))"

text \<open>
  Arrays of shape \<open>(N, C)\<close>, and \<^verbatim>\<open>a.T\<close>, the transpose of an \<open>(N, T)\<close> array.
\<close>

definition has_shape2 :: "'a list list \<Rightarrow> nat \<Rightarrow> nat \<Rightarrow> bool" where
  "has_shape2 a N C = (length a = N \<and> list_all (\<lambda>r. length r = C) a)"

definition shape2 :: "'a list list \<Rightarrow> nat \<times> nat" where
  "shape2 a = (length a, (case a of [] \<Rightarrow> 0 | r # _ \<Rightarrow> length r))"

definition ndarray_T :: "'a list list \<Rightarrow> 'a list list" where
  "ndarray_T a = (case shape2 a of (N, T) \<Rightarrow> map (\<lambda>t. map (\<lambda>row. row ! t) a) [0..<T])"

subsection \<open>The operators used by \<open>MeanPoolingLayer.hybrid_forward\<close>\<close>

text \<open>
  Modelled from the spec: the framework operator
  \<^verbatim>\<open>F.SequenceMask(data, sequence_length=valid_length, use_sequence_length=True)\<close>, which
  the notebook only calls. It is the step "zero out features beyond each sample's valid
  length": with the time axis first, entry \<open>(t, n, c)\<close> is kept when
  \<open>t < sequence_length[n]\<close> and replaced by 0 otherwise. The lengths are the token counts
  of the samples (cast to float32 at the call), so they are natural numbers here.
\<close>

definition SequenceMask :: "ndarray3 \<Rightarrow> nat list \<Rightarrow> ndarray3" where
  "SequenceMask data sequence_length =
     map (\<lambda>(t, m).
            map (\<lambda>(n, row). if t < sequence_length ! n then row else map (\<lambda>_. 0) row)
                (enumerate 0 m))
         (enumerate 0 data)"

text \<open>
  Modelled from the spec: the framework operator \<^verbatim>\<open>F.sum(x, axis=0)\<close>, "sum over the
  time axis": the \<open>(N, C)\<close> array of the sums over the first axis.
\<close>

definition sum_axis0 :: "ndarray3 \<Rightarrow> ndarray2" where
  "sum_axis0 data =
     (case shape3 data of (T, N, C) \<Rightarrow>
        map (\<lambda>n. map (\<lambda>c. \<Sum>t\<leftarrow>[0..<T]. data ! t ! n ! c) [0..<C]) [0..<N])"

text \<open>
  Modelled from the spec: the framework operator \<^verbatim>\<open>F.expand_dims(v, axis=1)\<close>: a vector
  of shape \<open>(N)\<close> becomes a column of shape \<open>(N, 1)\<close>.
\<close>

definition expand_dims1 :: "'a list \<Rightarrow> 'a list list" where
  "expand_dims1 v = map (\<lambda>x. [x]) v"

text \<open>Division of two array entries; \<open>None\<close> when the divisor is zero.\<close>

definition fdiv :: "real \<Rightarrow> real \<Rightarrow> real option" where
  "fdiv x y = (if y = 0 then None else Some (x / y))"

text \<open>
  Modelled from the spec: the framework operator \<^verbatim>\<open>F.broadcast_div(lhs, rhs)\<close>, "divide
  by the valid length", for operands with the same number of rows: a row of \<open>rhs\<close> with
  a single entry is broadcast along the row of \<open>lhs\<close>.
\<close>

definition broadcast_div :: "ndarray2 \<Rightarrow> ndarray2 \<Rightarrow> real option list list" where
  "broadcast_div lhs rhs =
     map (\<lambda>(row, d). case d of [y] \<Rightarrow> map (\<lambda>x. fdiv x y) row | _ \<Rightarrow> map2 fdiv row d)
         (zip lhs rhs)"

subsection \<open>\<open>MeanPoolingLayer\<close>\<close>

text \<open>
  \<^verbatim>\<open>
  def hybrid_forward(self, F, data, valid_length):
      # Data will have shape (T, N, C)
      masked_encoded = F.SequenceMask(data, sequence_length=valid_length,
                                      use_sequence_length=True)
      agg_state = F.broadcast_div(F.sum(masked_encoded, axis=0),
                                  F.expand_dims(valid_length, axis=1))
      return agg_state
  \<close>
\<close>

definition MeanPoolingLayer_hybrid_forward :: "ndarray3 \<Rightarrow> nat list \<Rightarrow> real option list list" where
  "MeanPoolingLayer_hybrid_forward data valid_length =
     (let masked_encoded = SequenceMask data valid_length;
          agg_state = broadcast_div (sum_axis0 masked_encoded)
                                    (expand_dims1 (map real valid_length))
      in agg_state)"

subsection \<open>Loading the data\<close>

text \<open>
  A float64 cell of a data frame: a finite number, an infinity or NaN (which is also how
  pandas reads a missing value). \<open>float_ge\<close> is the comparison \<^verbatim>\<open>>=\<close> of IEEE numbers:
  every comparison with NaN is false.
\<close>

datatype float64 = Finite real | PosInf | NegInf | NaN

fun float_ge :: "float64 \<Rightarrow> float64 \<Rightarrow> bool" where
  "float_ge NaN _ = False"
| "float_ge _ NaN = False"
| "float_ge PosInf _ = True"
| "float_ge _ NegInf = True"
| "float_ge (Finite x) (Finite y) = (y \<le> x)"
| "float_ge _ _ = False"

text \<open>\<^verbatim>\<open>.astype(int)\<close> of a boolean column and \<^verbatim>\<open>.astype(str)\<close> of a text column.\<close>

definition astype_int :: "bool \<Rightarrow> int" where
  "astype_int b = (if b then 1 else 0)"

definition astype_str :: "string option \<Rightarrow> string" where
  "astype_str v = (case v of None \<Rightarrow> ''nan'' | Some s \<Rightarrow> s)"

text \<open>
  \<^verbatim>\<open>
  train_df['comment_text'] = train_df['comment_text'].astype(str)
  train_df['target']=(train_df['target']>=0.5).astype(int)
  train_data_raw = train_df[['comment_text', 'target']].values
  \<close>
  A row of the training frame is the pair of its \<open>comment_text\<close> and \<open>target\<close> cells.
\<close>

definition binarize_target :: "float64 list \<Rightarrow> int list" where
  "binarize_target target = map (\<lambda>score. astype_int (float_ge score (Finite 0.5))) target"

definition prepare_train_df :: "(string option \<times> float64) list \<Rightarrow> (string \<times> int) list" where
  "prepare_train_df train_df =
     zip (map (astype_str \<circ> fst) train_df) (binarize_target (map snd train_df))"

subsection \<open>Preprocessing\<close>

text \<open>
  \<^verbatim>\<open>
  tokenizer = nlp.data.SpacyTokenizer('en')
  length_clip = nlp.data.ClipSequence(500)

  def preprocess(x):
      data, label = x
      data = vocab[length_clip(tokenizer(data))]
      return data, label

  def test_preprocess(x):
      data = x[0]
      data = vocab[length_clip(tokenizer(data))]
      return data

  def get_length(x):
      return float(len(x[0]))
  \<close>
  The tokenizer and the vocabulary come with the pretrained model; they are parameters.
  The vocabulary maps every token to an index (an unknown token to the index of the
  unknown-token entry), and indexing it with a list of tokens gives the list of indices.
  A row of the one-column array \<^verbatim>\<open>test_df[['comment_text']].values\<close> is its only field.
\<close>

definition length_clip :: "'a list \<Rightarrow> 'a list" where
  "length_clip sample = take 500 sample"

definition vocab_getitem :: "(string \<Rightarrow> nat) \<Rightarrow> string list \<Rightarrow> nat list" where
  "vocab_getitem vocab tokens = map vocab tokens"

definition preprocess ::
  "(string \<Rightarrow> string list) \<Rightarrow> (string \<Rightarrow> nat) \<Rightarrow> string \<times> 'l \<Rightarrow> nat list \<times> 'l" where
  "preprocess tokenizer vocab x =
     (case x of (data, label) \<Rightarrow>
        (let data = vocab_getitem vocab (length_clip (tokenizer data)) in (data, label)))"

definition test_preprocess ::
  "(string \<Rightarrow> string list) \<Rightarrow> (string \<Rightarrow> nat) \<Rightarrow> string \<Rightarrow> nat list" where
  "test_preprocess tokenizer vocab x =
     (let data = x;
          data = vocab_getitem vocab (length_clip (tokenizer data))
      in data)"

definition get_length :: "nat list \<times> 'l \<Rightarrow> real" where
  "get_length x = real (length (fst x))"

subsection \<open>Batching\<close>

text \<open>
  Modelled from the spec: the toolkit's \<^verbatim>\<open>nlp.data.batchify.Pad(axis=0, ret_length=True)\<close>,
  which makes "a padded rectangular tensor of token ids plus a per-sample valid-length
  vector": the samples of a batch are padded with 0 to the length of the longest and
  stacked into an array of shape \<open>(N, T)\<close>; the second component is the vector of the
  samples' lengths before padding.
\<close>

definition Pad :: "nat list list \<Rightarrow> nat list list \<times> nat list" where
  "Pad samples =
     (let max_len = foldr max (map length samples) 0
      in (map (\<lambda>s. s @ replicate (max_len - length s) 0) samples, map length samples))"

subsection \<open>Inference\<close>

text \<open>
  Modelled from the spec: the framework's \<^verbatim>\<open>sigmoid\<close>, "sigmoid of the logit as a
  probability", on one entry: the logistic function.
\<close>

definition sigmoid :: "real \<Rightarrow> real" where
  "sigmoid x = 1 / (1 + exp (- x))"

subsection \<open>\<open>SentimentNet\<close>\<close>

text \<open>
  \<^verbatim>\<open>
  def hybrid_forward(self, F, data, valid_length):
      encoded = self.encoder(self.embedding(data))  # Shape(T, N, C)
      agg_state = self.agg_layer(encoded, valid_length)
      out = self.output(agg_state)
      return out
  \<close>
  The embedding and the encoder are taken from the pretrained language model and the
  output block is dropout followed by a dense layer with one unit; the three blocks are
  parameters.
\<close>

definition SentimentNet_hybrid_forward ::
  "(nat list list \<Rightarrow> 'e) \<Rightarrow> ('e \<Rightarrow> ndarray3) \<Rightarrow> (real option list list \<Rightarrow> 'o) \<Rightarrow>
   nat list list \<Rightarrow> nat list \<Rightarrow> 'o" where
  "SentimentNet_hybrid_forward embedding encoder output data valid_length =
     (let encoded = encoder (embedding data);
          agg_state = MeanPoolingLayer_hybrid_forward encoded valid_length;
          out = output agg_state
      in out)"

subsection \<open>The test data loader and the prediction loop\<close>

text \<open>
  Modelled from the spec: the framework's \<^verbatim>\<open>DataLoader(dataset, batch_size=batch_size,
  shuffle=False, batchify_fn=...)\<close>, which "applies the same preprocessing/batching to
  unlabeled data": consecutive batches of \<open>batch_size\<close> samples in dataset order, the last
  one shorter when the dataset size is not a multiple. The notebook's batch size is
  128; with a batch size of 0 the model yields no batch.
\<close>

function sequential_batches :: "nat \<Rightarrow> 'a list \<Rightarrow> 'a list list" where
  "sequential_batches batch_size xs =
     (if batch_size = 0 \<or> xs = [] then []
      else take batch_size xs # sequential_batches batch_size (drop batch_size xs))"
  by pat_completeness auto
termination
  by (relation "measure (\<lambda>(batch_size, xs). length xs)") auto

declare sequential_batches.simps [simp del]

definition DataLoader :: "nat \<Rightarrow> ('a list \<Rightarrow> 'b) \<Rightarrow> 'a list \<Rightarrow> 'b list" where
  "DataLoader batch_size batchify_fn dataset =
     map batchify_fn (sequential_batches batch_size dataset)"

text \<open>Errors raised on the way to the submission file.\<close>

datatype error = IndexError | ValueError

text \<open>
  \<^verbatim>\<open>
  results = []
  for _, (data, length) in enumerate(test_dataloader):
      output = net(data.as_in_context(context).T,
                   length.as_in_context(context).astype(np.float32))
      results.extend(out for out in output)
  predictions = [result.sigmoid().asnumpy()[0] for result in results]
  \<close>
  The network is a parameter: it maps the \<open>(T, N)\<close> array of token ids and the valid
  lengths to an array of logits, one row per sample. Indexing a row with no entry
  raises IndexError.
\<close>

definition getitem0 :: "'a list \<Rightarrow> error + 'a" where
  "getitem0 a = (case a of [] \<Rightarrow> Inl IndexError | x # _ \<Rightarrow> Inr x)"

definition predict_loop ::
  "(nat list list \<Rightarrow> nat list \<Rightarrow> real list list) \<Rightarrow> (nat list list \<times> nat list) list \<Rightarrow>
   real list list" where
  "predict_loop net test_dataloader =
     foldl (\<lambda>results (data, length'). results @ net (ndarray_T data) length') [] test_dataloader"

fun predictions :: "real list list \<Rightarrow> error + real list" where
  "predictions [] = Inr []"
| "predictions (result # results) =
     (case getitem0 (map sigmoid result) of
        Inl e \<Rightarrow> Inl e
      | Inr p \<Rightarrow> (case predictions results of Inl e \<Rightarrow> Inl e | Inr ps \<Rightarrow> Inr (p # ps)))"

text \<open>
  \<^verbatim>\<open>
  submission = pd.DataFrame.from_dict({'id': test_df['id'], 'prediction': predictions})
  submission.to_csv('submission.csv', index=False)
  \<close>
  A row of the test frame is the pair of its \<open>id\<close> and \<open>comment_text\<close> cells. The frame is
  built on the index of the \<open>id\<close> column, and a list of another length raises ValueError.
  The file is its header line and its rows in order; the formatting of the numbers is
  not modelled.
\<close>

definition DataFrame_from_dict :: "'i list \<Rightarrow> real list \<Rightarrow> error + ('i \<times> real) list" where
  "DataFrame_from_dict ids preds =
     (if length preds = length ids then Inr (zip ids preds) else Inl ValueError)"

definition to_csv :: "('i \<times> real) list \<Rightarrow> string list \<times> ('i \<times> real) list" where
  "to_csv submission = ([''id'', ''prediction''], submission)"

text \<open>
  \<^verbatim>\<open>
  test_df['comment_text'] = test_df['comment_text'].astype(str)
  test_data_raw = test_df[['comment_text']].values
  test_dataset = gluon.data.SimpleDataset(pool.map(test_preprocess, test_data_raw))
  test_batchify_fn = nlp.data.batchify.Pad(axis=0, ret_length=True)
  test_dataloader = gluon.data.DataLoader(dataset=test_dataset, batch_size=batch_size,
                                          shuffle=False, batchify_fn=test_batchify_fn)
  \<close>
  \<open>make_submission\<close> is the path from the test frame to the submission file.
\<close>

definition test_dataset_of ::
  "(string \<Rightarrow> string list) \<Rightarrow> (string \<Rightarrow> nat) \<Rightarrow> ('i \<times> string option) list \<Rightarrow> nat list list" where
  "test_dataset_of tokenizer vocab test_df =
     (let test_data_raw = map (astype_str \<circ> snd) test_df
      in map (test_preprocess tokenizer vocab) test_data_raw)"

definition make_submission ::
  "(string \<Rightarrow> string list) \<Rightarrow> (string \<Rightarrow> nat) \<Rightarrow>
   (nat list list \<Rightarrow> nat list \<Rightarrow> real list list) \<Rightarrow> nat \<Rightarrow> ('i \<times> string option) list \<Rightarrow>
   error + string list \<times> ('i \<times> real) list" where
  "make_submission tokenizer vocab net batch_size test_df =
     (let test_dataset = test_dataset_of tokenizer vocab test_df;
          test_dataloader = DataLoader batch_size Pad test_dataset;
          results = predict_loop net test_dataloader
      in case predictions results of
           Inl e \<Rightarrow> Inl e
         | Inr preds \<Rightarrow>
             (case DataFrame_from_dict (map fst test_df) preds of
                Inl e \<Rightarrow> Inl e
              | Inr submission \<Rightarrow> Inr (to_csv submission)))"

subsection \<open>The training loop\<close>

text \<open>
  \<^verbatim>\<open>
  batchify_fn = nlp.data.batchify.Tuple(
      nlp.data.batchify.Pad(axis=0, ret_length=True),
      nlp.data.batchify.Stack(dtype='float32'))
  \<close>
  A training batch is \<open>((data, length), label)\<close> with \<open>data\<close> of shape \<open>(N, T)\<close>.
\<close>

type_synonym train_batch = "(nat list list \<times> nat list) \<times> real list"

definition batchify_fn :: "(nat list \<times> int) list \<Rightarrow> train_batch" where
  "batchify_fn samples = (Pad (map fst samples), map (real_of_int \<circ> snd) samples)"

text \<open>
  The counters of the loop and a printed line: the epoch, the batch number, the number
  of batches and the average loss. The clock, and with it the elapsed time and the
  throughput of the line, is not modelled.
\<close>

record log_stats =
  epoch_L :: real
  epoch_sent_num :: nat
  epoch_wc :: nat
  log_interval_wc :: nat
  log_interval_sent_num :: nat
  log_interval_L :: real

type_synonym log_line = "nat \<times> nat \<times> nat \<times> real option"

text \<open>
  \<^verbatim>\<open>
  for i, ((data, length), label) in enumerate(train_dataloader):
      L = 0
      wc = length.sum().asscalar()
      log_interval_wc += wc
      epoch_wc += wc
      log_interval_sent_num += data.shape[1]
      epoch_sent_num += data.shape[1]
      with autograd.record():
          output = net(data.as_in_context(context).T,
                       length.as_in_context(context).astype(np.float32))
          L = L + loss(output, label.as_in_context(context)).mean()
      L.backward()
      if grad_clip: ...
      trainer.step(1)
      log_interval_L += L.asscalar()
      epoch_L += L.asscalar()
      if (i + 1) % log_interval == 0:
          print(... log_interval_L / log_interval_sent_num ...)
          log_interval_wc = 0
          log_interval_sent_num = 0
          log_interval_L = 0
  \<close>
  \<open>forward_loss\<close> is the mean loss of the network on the batch and \<open>update\<close> the backward
  pass, the optional clipping and the optimizer step; both are parameters. The state of
  the loop is the network, the counters and the lines printed so far. \<^verbatim>\<open>data.shape[1]\<close>
  is the second component of \<open>shape2 data\<close>. The notebook's \<open>log_interval\<close> is 10000; with
  0 the remainder would raise in Python, and the model prints no line.
\<close>

fun train_batches ::
  "('p \<Rightarrow> train_batch \<Rightarrow> real) \<Rightarrow> ('p \<Rightarrow> train_batch \<Rightarrow> 'p) \<Rightarrow> nat \<Rightarrow> nat \<Rightarrow> nat \<Rightarrow>
   nat \<Rightarrow> train_batch list \<Rightarrow> 'p \<times> log_stats \<times> log_line list \<Rightarrow> 'p \<times> log_stats \<times> log_line list" where
  "train_batches forward_loss update log_interval epoch n_batches i [] st = st"
| "train_batches forward_loss update log_interval epoch n_batches i (((data, length'), label) # rest)
     (net, s, out) =
     (let wc = sum_list length';
          s = s\<lparr>log_interval_wc := log_interval_wc s + wc\<rparr>;
          s = s\<lparr>epoch_wc := epoch_wc s + wc\<rparr>;
          s = s\<lparr>log_interval_sent_num := log_interval_sent_num s + snd (shape2 data)\<rparr>;
          s = s\<lparr>epoch_sent_num := epoch_sent_num s + snd (shape2 data)\<rparr>;
          L = 0 + forward_loss net ((data, length'), label);
          net = update net ((data, length'), label);
          s = s\<lparr>log_interval_L := log_interval_L s + L\<rparr>;
          s = s\<lparr>epoch_L := epoch_L s + L\<rparr>
      in if (i + 1) mod log_interval = 0
         then train_batches forward_loss update log_interval epoch n_batches (i + 1) rest
                (net,
                 s\<lparr>log_interval_wc := 0, log_interval_sent_num := 0, log_interval_L := 0\<rparr>,
                 out @ [(epoch, i + 1, n_batches,
                         fdiv (log_interval_L s) (real (log_interval_sent_num s)))])
         else train_batches forward_loss update log_interval epoch n_batches (i + 1) rest
                (net, s, out))"

text \<open>
  One pass of \<^verbatim>\<open>for epoch in range(epochs)\<close>, which starts by setting the counters to
  zero, and the whole loop. \<open>train_dataloader epoch\<close> is the list of batches the loader
  yields in that epoch.
\<close>

definition train_epoch ::
  "('p \<Rightarrow> train_batch \<Rightarrow> real) \<Rightarrow> ('p \<Rightarrow> train_batch \<Rightarrow> 'p) \<Rightarrow> nat \<Rightarrow>
   (nat \<Rightarrow> train_batch list) \<Rightarrow> 'p \<times> log_line list \<Rightarrow> nat \<Rightarrow> 'p \<times> log_line list" where
  "train_epoch forward_loss update log_interval train_dataloader st epoch =
     (case st of (net, out) \<Rightarrow>
        (let s = \<lparr>epoch_L = 0, epoch_sent_num = 0, epoch_wc = 0,
                  log_interval_wc = 0, log_interval_sent_num = 0, log_interval_L = 0\<rparr>;
             batches = train_dataloader epoch
         in case train_batches forward_loss update log_interval epoch (length batches) 0
                   batches (net, s, out)
            of (net, s, out) \<Rightarrow> (net, out)))"

definition train ::
  "('p \<Rightarrow> train_batch \<Rightarrow> real) \<Rightarrow> ('p \<Rightarrow> train_batch \<Rightarrow> 'p) \<Rightarrow> nat \<Rightarrow>
   (nat \<Rightarrow> train_batch list) \<Rightarrow> nat \<Rightarrow> 'p \<Rightarrow> 'p \<times> log_line list" where
  "train forward_loss update log_interval train_dataloader epochs net =
     foldl (train_epoch forward_loss update log_interval train_dataloader) (net, [])
       [0..<epochs]"

subsection \<open>The bucketed batch sampler\<close>

text \<open>
  Modelled from the spec: the toolkit's \<^verbatim>\<open>FixedBucketSampler\<close>, which the notebook only
  constructs (\<^verbatim>\<open>FixedBucketSampler(train_data_lengths, batch_size=batch_size,
  num_buckets=bucket_num, ratio=bucket_ratio, shuffle=True)\<close>) and whose statistics it
  prints. The spec: it "partitions a dataset by a length statistic into a fixed number
  of buckets with a target fill ratio, assigns batch size per bucket (larger batches for
  shorter buckets), shuffles sample order within/between buckets each epoch pass".
  The sampler refuses an empty dataset, a batch size or a number of buckets of 0, a
  negative ratio and a sample of length 0. The bucket keys are upper length bounds of
  constant width \<open>(1 + max - min) div num_buckets\<close> (at least 1) below the largest length;
  a sample goes to the bucket with the smallest key that is at least its length, and a
  sample that fits no bucket is an error; buckets without samples are dropped. The batch
  size of a bucket is the configured one or, when larger, the scaled one,
  \<^verbatim>\<open>int(max_key / float(key) * ratio * batch_size)\<close>. That product is computed in floating
  point, so it is a parameter of the model, \<open>scale_up\<close>; \<open>exact_scale_up\<close> is the same product
  in exact arithmetic, rounded down. A batch is a slice of one bucket, named by the
  bucket and the slice's first position.
\<close>

datatype sampler_error = AssertionError | NoBucketError

definition ConstWidthBucket :: "nat \<Rightarrow> nat \<Rightarrow> nat \<Rightarrow> nat list" where
  "ConstWidthBucket max_lengths min_lengths num_buckets =
     (let bucket_width = max ((1 + max_lengths - min_lengths) div num_buckets) 1
      in map (\<lambda>i. max (max_lengths - i * bucket_width) min_lengths) [0..<num_buckets])"

fun match_bucket_key :: "nat list \<Rightarrow> nat \<Rightarrow> nat option" where
  "match_bucket_key [] len = None"
| "match_bucket_key (key # keys) len =
     (if len \<le> key then Some 0 else map_option Suc (match_bucket_key keys len))"

text \<open>\<^verbatim>\<open>range(0, stop, step)\<close> as a list.\<close>

definition range_step :: "nat \<Rightarrow> nat \<Rightarrow> nat list" where
  "range_step stop step = map (\<lambda>j. j * step) [0..<(stop + step - 1) div step]"

record sampler =
  bucket_keys :: "nat list"
  bucket_sample_ids :: "nat list list"
  bucket_batch_sizes :: "nat list"
  batch_infos :: "(nat \<times> nat) list"

definition exact_scale_up :: "nat \<Rightarrow> nat \<Rightarrow> real \<Rightarrow> nat \<Rightarrow> nat" where
  "exact_scale_up max_key key ratio batch_size =
     nat \<lfloor>real max_key / real key * ratio * real batch_size\<rfloor>"

definition FixedBucketSampler ::
  "nat list \<Rightarrow> nat \<Rightarrow> nat \<Rightarrow> real \<Rightarrow> (nat \<Rightarrow> nat \<Rightarrow> real \<Rightarrow> nat \<Rightarrow> nat) \<Rightarrow>
   sampler_error + sampler" where
  "FixedBucketSampler lengths batch_size num_buckets ratio scale_up =
     (if lengths = [] \<or> batch_size = 0 \<or> ratio < 0 then Inl AssertionError
      else
        let max_lengths = foldr max lengths 0;
            min_lengths = foldr min lengths max_lengths
        in if min_lengths = 0 \<or> num_buckets = 0 then Inl AssertionError
           else
             let keys = sort (ConstWidthBucket max_lengths min_lengths num_buckets);
                 sample_bucket = map (match_bucket_key keys) lengths
             in if None \<in> set sample_bucket then Inl NoBucketError
                else
                  let all_ids = map (\<lambda>k. filter (\<lambda>i. sample_bucket ! i = Some k)
                                                  [0..<length lengths])
                                    [0..<length keys];
                      used = filter (\<lambda>(key, sample_ids). sample_ids \<noteq> []) (zip keys all_ids);
                      used_keys = map fst used;
                      max_key = foldr max used_keys 0;
                      sizes = map (\<lambda>key. max (scale_up max_key key ratio batch_size) batch_size)
                                  used_keys;
                      infos = concat (map (\<lambda>bucket_id.
                                 map (\<lambda>i. (bucket_id, i))
                                     (range_step (length (map snd used ! bucket_id))
                                                 (sizes ! bucket_id)))
                                 (rev [0..<length used]))
                  in Inr \<lparr>bucket_keys = used_keys, bucket_sample_ids = map snd used,
                          bucket_batch_sizes = sizes, batch_infos = infos\<rparr>)"

text \<open>
  One pass over the sampler: the ids of every bucket and the list of batches are
  shuffled in place, then the batches are yielded. The two shuffles are parameters; the
  state after the pass is returned with the batches. \<open>sampler_epochs\<close> runs one pass per
  listed epoch, each with its own shuffles.
\<close>

definition sampler_iter ::
  "(nat \<Rightarrow> nat list \<Rightarrow> nat list) \<Rightarrow> ((nat \<times> nat) list \<Rightarrow> (nat \<times> nat) list) \<Rightarrow> sampler \<Rightarrow>
   nat list list \<times> sampler" where
  "sampler_iter shuffle_ids shuffle_infos s =
     (let ids = map (\<lambda>(k, sample_ids). shuffle_ids k sample_ids)
                    (enumerate 0 (bucket_sample_ids s));
          infos = shuffle_infos (batch_infos s);
          s = s\<lparr>bucket_sample_ids := ids, batch_infos := infos\<rparr>
      in (map (\<lambda>(bucket_id, batch_begin).
                 let batch_size = bucket_batch_sizes s ! bucket_id;
                     batch_end = min (batch_begin + batch_size)
                                     (length (bucket_sample_ids s ! bucket_id))
                 in take (batch_end - batch_begin)
                         (drop batch_begin (bucket_sample_ids s ! bucket_id)))
              (batch_infos s),
          s))"

fun sampler_epochs ::
  "(nat \<Rightarrow> nat \<Rightarrow> nat list \<Rightarrow> nat list) \<Rightarrow> (nat \<Rightarrow> (nat \<times> nat) list \<Rightarrow> (nat \<times> nat) list) \<Rightarrow>
   nat list \<Rightarrow> sampler \<Rightarrow> nat list list list" where
  "sampler_epochs shuffle_ids shuffle_infos [] s = []"
| "sampler_epochs shuffle_ids shuffle_infos (epoch # epochs) s =
     (case sampler_iter (shuffle_ids epoch) (shuffle_infos epoch) s of
        (batches, s) \<Rightarrow> batches # sampler_epochs shuffle_ids shuffle_infos epochs s)"

text \<open>
  The invariant of the sampler used in the proofs: the buckets hold every index below
  \<open>n\<close> exactly once, every bucket has a positive batch size, and the batch list is a
  rearrangement of the slices of all buckets.
\<close>

definition standard_infos :: "nat list list \<Rightarrow> nat list \<Rightarrow> (nat \<times> nat) list" where
  "standard_infos ids sizes =
     concat (map (\<lambda>k. map (\<lambda>i. (k, i)) (range_step (length (ids ! k)) (sizes ! k)))
                 [0..<length ids])"

definition sampler_inv :: "nat \<Rightarrow> sampler \<Rightarrow> bool" where
  "sampler_inv n s =
     (mset (concat (bucket_sample_ids s)) = mset [0..<n] \<and>
      length (bucket_batch_sizes s) = length (bucket_sample_ids s) \<and>
      list_all (\<lambda>b. 0 < b) (bucket_batch_sizes s) \<and>
      mset (batch_infos s) = mset (standard_infos (bucket_sample_ids s) (bucket_batch_sizes s)))"

section \<open>Properties\<close>

subsection \<open>Mean pooling\<close>

lemma has_shape3_nth:
  "has_shape3 data T N C \<Longrightarrow> t < T \<Longrightarrow> length (data ! t) = N"
  "has_shape3 data T N C \<Longrightarrow> t < T \<Longrightarrow> n < N \<Longrightarrow> length (data ! t ! n) = C"
  by (auto simp: has_shape3_def list_all_length)

lemma shape3_of_has_shape3:
  "has_shape3 data T N C \<Longrightarrow> 0 < T \<Longrightarrow> 0 < N \<Longrightarrow> shape3 data = (T, N, C)"
  by (cases data; cases "hd data") (auto simp: has_shape3_def shape3_def)

lemma shape3_N0:
  "has_shape3 data T 0 C \<Longrightarrow> \<exists>C'. shape3 data = (T, 0, C')"
  by (cases data) (auto simp: has_shape3_def shape3_def split: list.splits)

lemma SequenceMask_shape:
  "has_shape3 data T N C \<Longrightarrow> has_shape3 (SequenceMask data vl) T N C"
  by (auto simp: has_shape3_def SequenceMask_def list_all_length nth_enumerate_eq)

lemma SequenceMask_nth:
  "has_shape3 data T N C \<Longrightarrow> t < T \<Longrightarrow> n < N \<Longrightarrow> c < C \<Longrightarrow>
   SequenceMask data vl ! t ! n ! c = (if t < vl ! n then data ! t ! n ! c else 0)"
  by (auto simp: has_shape3_def SequenceMask_def list_all_length nth_enumerate_eq)

lemma sum_axis0_length:
  "has_shape3 data T N C \<Longrightarrow> 0 < T \<Longrightarrow> length (sum_axis0 data) = N"
  apply (cases "N = 0")
  subgoal using shape3_N0[of data T C] by (auto simp: sum_axis0_def)
  subgoal by (simp add: sum_axis0_def shape3_of_has_shape3)
  done

lemma sum_axis0_nth:
  "has_shape3 data T N C \<Longrightarrow> 0 < T \<Longrightarrow> n < N \<Longrightarrow>
   sum_axis0 data ! n = map (\<lambda>c. \<Sum>t\<leftarrow>[0..<T]. data ! t ! n ! c) [0..<C]"
  by (simp add: sum_axis0_def shape3_of_has_shape3)

lemma masked_sum_prefix:
  "(\<Sum>t\<leftarrow>[0..<T]. if t < k then f t else (0::real)) = (\<Sum>t\<leftarrow>[0..<min T k]. f t)"
proof (induction T)
  case 0
  then show ?case by simp
next
  case (Suc T)
  show ?case
  proof (cases "T < k")
    case True
    then have "min (Suc T) k = Suc (min T k)" by simp
    with Suc True show ?thesis by simp
  next
    case False
    then have "min (Suc T) k = min T k" by simp
    with Suc False show ?thesis by simp
  qed
qed

lemma broadcast_div_length:
  "length rhs = length lhs \<Longrightarrow> length (broadcast_div lhs rhs) = length lhs"
  by (simp add: broadcast_div_def)

lemma broadcast_div_nth:
  "n < length lhs \<Longrightarrow> n < length v \<Longrightarrow>
   broadcast_div lhs (expand_dims1 v) ! n = map (\<lambda>x. fdiv x (v ! n)) (lhs ! n)"
  by (simp add: broadcast_div_def expand_dims1_def)

lemma MeanPoolingLayer_hybrid_forward_length:
  assumes "has_shape3 data T N C" "0 < T" "length valid_length = N"
  shows "length (MeanPoolingLayer_hybrid_forward data valid_length) = N"
  using assms sum_axis0_length[OF SequenceMask_shape[OF assms(1)] assms(2)]
  by (simp add: MeanPoolingLayer_hybrid_forward_def broadcast_div_def expand_dims1_def)

lemma MeanPoolingLayer_hybrid_forward_nth:
  assumes "has_shape3 data T N C" "0 < T" "length valid_length = N" "n < N"
  shows "MeanPoolingLayer_hybrid_forward data valid_length ! n =
         map (\<lambda>c. fdiv (\<Sum>t\<leftarrow>[0..<min T (valid_length ! n)]. data ! t ! n ! c)
                        (real (valid_length ! n))) [0..<C]"
proof -
  let ?m = "SequenceMask data valid_length"
  have sh: "has_shape3 ?m T N C" by (rule SequenceMask_shape[OF assms(1)])
  have len: "length (sum_axis0 ?m) = N" by (rule sum_axis0_length[OF sh assms(2)])
  have row: "sum_axis0 ?m ! n = map (\<lambda>c. \<Sum>t\<leftarrow>[0..<T]. ?m ! t ! n ! c) [0..<C]"
    by (rule sum_axis0_nth[OF sh assms(2) assms(4)])
  have "\<And>c. c < C \<Longrightarrow> (\<Sum>t\<leftarrow>[0..<T]. ?m ! t ! n ! c) =
          (\<Sum>t\<leftarrow>[0..<min T (valid_length ! n)]. data ! t ! n ! c)"
  proof -
    fix c assume c: "c < C"
    have "map (\<lambda>t. ?m ! t ! n ! c) [0..<T] =
          map (\<lambda>t. if t < valid_length ! n then data ! t ! n ! c else 0) [0..<T]"
      using SequenceMask_nth[OF assms(1) _ assms(4) c] by simp
    then show "(\<Sum>t\<leftarrow>[0..<T]. ?m ! t ! n ! c) =
          (\<Sum>t\<leftarrow>[0..<min T (valid_length ! n)]. data ! t ! n ! c)"
      by (simp only: masked_sum_prefix)
  qed
  then have row': "sum_axis0 ?m ! n =
      map (\<lambda>c. \<Sum>t\<leftarrow>[0..<min T (valid_length ! n)]. data ! t ! n ! c) [0..<C]"
    unfolding row by simp
  have "MeanPoolingLayer_hybrid_forward data valid_length ! n =
        map (\<lambda>x. fdiv x (map real valid_length ! n)) (sum_axis0 ?m ! n)"
    unfolding MeanPoolingLayer_hybrid_forward_def Let_def
    by (rule broadcast_div_nth) (use len assms in simp_all)
  then show ?thesis using assms(3,4) by (simp add: row' o_def)
qed

text \<open>
  C1: for a batch of shape \<open>(T, N, C)\<close> with one valid length per sample, the layer returns
  one vector of \<open>C\<close> entries per sample, and entry \<open>c\<close> of sample \<open>n\<close> is the sum of
  \<open>data[t, n, c]\<close> over the timesteps \<open>t\<close> before the sample's valid length (the later
  timesteps are zeroed by the mask), divided by the valid length.
\<close>
theorem mean_pool_masked_mean:
  assumes "has_shape3 data T N C" and "0 < T" and "length valid_length = N"
  shows "length (MeanPoolingLayer_hybrid_forward data valid_length) = N \<and>
         (\<forall>n<N. length (MeanPoolingLayer_hybrid_forward data valid_length ! n) = C \<and>
            (\<forall>c<C. MeanPoolingLayer_hybrid_forward data valid_length ! n ! c =
                fdiv (\<Sum>t\<leftarrow>[0..<min T (valid_length ! n)]. data ! t ! n ! c)
                     (real (valid_length ! n))))"
  using MeanPoolingLayer_hybrid_forward_length[OF assms] MeanPoolingLayer_hybrid_forward_nth[OF assms]
  by simp

theorem mean_pool_masked_mean_witness:
  "has_shape3 [[[1, 2], [3, 4]], [[5, 6], [70, 80::real]]] 2 2 2 \<and> (0::nat) < 2 \<and>
   length [2, 1::nat] = 2 \<and>
   MeanPoolingLayer_hybrid_forward [[[1, 2], [3, 4]], [[5, 6], [70, 80]]] [2, 1] ! 1 ! 0 = Some 3 \<and>
   MeanPoolingLayer_hybrid_forward [[[1, 2], [3, 4]], [[5, 6], [70, 80]]] [2, 1] ! 0 ! 1 = Some 4"
proof -
  have sh: "has_shape3 [[[1, 2], [3, 4]], [[5, 6], [70, 80::real]]] 2 2 2"
    by (simp add: has_shape3_def)
  have T: "(0::nat) < 2" by simp
  have vl: "length [2, 1::nat] = 2" by simp
  note th = mean_pool_masked_mean[OF sh T vl]
  have up: "[0..<2] = [0, 1]" by (simp add: upt_rec)
  from th have a: "\<forall>c<2. MeanPoolingLayer_hybrid_forward [[[1, 2], [3, 4]], [[5, 6], [70, 80]]] [2, 1] ! 1 ! c =
                fdiv (\<Sum>t\<leftarrow>[0..<min 2 ([2, 1] ! 1)]. [[[1, 2], [3, 4]], [[5, 6], [70, 80]]] ! t ! 1 ! c)
                     (real ([2, 1::nat] ! 1))" by simp
  from th have b: "\<forall>c<2. MeanPoolingLayer_hybrid_forward [[[1, 2], [3, 4]], [[5, 6], [70, 80]]] [2, 1] ! 0 ! c =
                fdiv (\<Sum>t\<leftarrow>[0..<min 2 ([2, 1] ! 0)]. [[[1, 2], [3, 4]], [[5, 6], [70, 80]]] ! t ! 0 ! c)
                     (real ([2, 1::nat] ! 0))" by simp
  have e10: "MeanPoolingLayer_hybrid_forward [[[1, 2], [3, 4]], [[5, 6], [70, 80]]] [2, 1] ! 1 ! 0 = Some 3"
    using a by (simp add: fdiv_def)
  have e01: "MeanPoolingLayer_hybrid_forward [[[1, 2], [3, 4]], [[5, 6], [70, 80]]] [2, 1] ! 0 ! 1 = Some 4"
    using b by (simp add: fdiv_def up)
  from sh T vl e10 e01 show ?thesis by simp
qed

lemma SequenceMask_row:
  "has_shape3 data T N C \<Longrightarrow> t < T \<Longrightarrow> n < N \<Longrightarrow>
   SequenceMask data vl ! t ! n = (if t < vl ! n then data ! t ! n else replicate C 0)"
  by (auto simp: has_shape3_def SequenceMask_def list_all_length nth_enumerate_eq map_replicate_const)

lemma SequenceMask_cong:
  assumes s1: "has_shape3 d1 T N C" and s2: "has_shape3 d2 T N C"
    and agree: "\<forall>n<N. \<forall>t<T. t < vl ! n \<longrightarrow> d1 ! t ! n = d2 ! t ! n"
  shows "SequenceMask d1 vl = SequenceMask d2 vl"
proof (rule nth_equalityI)
  show "length (SequenceMask d1 vl) = length (SequenceMask d2 vl)"
    using SequenceMask_shape[OF s1, of vl] SequenceMask_shape[OF s2, of vl]
    by (simp add: has_shape3_def)
next
  fix t assume "t < length (SequenceMask d1 vl)"
  then have t: "t < T" using SequenceMask_shape[OF s1, of vl] by (simp add: has_shape3_def)
  show "SequenceMask d1 vl ! t = SequenceMask d2 vl ! t"
  proof (rule nth_equalityI)
    show "length (SequenceMask d1 vl ! t) = length (SequenceMask d2 vl ! t)"
      using has_shape3_nth(1)[OF SequenceMask_shape[OF s1] t]
            has_shape3_nth(1)[OF SequenceMask_shape[OF s2] t] by simp
  next
    fix n assume "n < length (SequenceMask d1 vl ! t)"
    then have n: "n < N" using has_shape3_nth(1)[OF SequenceMask_shape[OF s1] t] by simp
    show "SequenceMask d1 vl ! t ! n = SequenceMask d2 vl ! t ! n"
      using agree t n by (simp add: SequenceMask_row[OF s1 t n] SequenceMask_row[OF s2 t n])
  qed
qed

text \<open>
  C2: two batches of the same shape that agree, for every sample, on the timesteps before
  its valid length give the same output for the same vector of valid lengths, whatever
  the padding positions hold.
\<close>
theorem mean_pool_ignores_padding:
  assumes "has_shape3 d1 T N C" and "has_shape3 d2 T N C" and "length valid_length = N"
    and "\<forall>n<N. \<forall>t<T. t < valid_length ! n \<longrightarrow> d1 ! t ! n = d2 ! t ! n"
  shows "MeanPoolingLayer_hybrid_forward d1 valid_length =
         MeanPoolingLayer_hybrid_forward d2 valid_length"
  using SequenceMask_cong[OF assms(1,2,4)] by (simp add: MeanPoolingLayer_hybrid_forward_def)

theorem mean_pool_ignores_padding_witness:
  "has_shape3 [[[1], [2]], [[3], [4::real]]] 2 2 1 \<and>
   has_shape3 [[[1], [2]], [[3], [99::real]]] 2 2 1 \<and>
   MeanPoolingLayer_hybrid_forward [[[1], [2]], [[3], [4]]] [2, 1] =
   MeanPoolingLayer_hybrid_forward [[[1], [2]], [[3], [99]]] [2, 1]"
proof -
  have s1: "has_shape3 [[[1], [2]], [[3], [4::real]]] 2 2 1" by (simp add: has_shape3_def)
  have s2: "has_shape3 [[[1], [2]], [[3], [99::real]]] 2 2 1" by (simp add: has_shape3_def)
  have ag: "\<forall>n<2. \<forall>t<2. t < [2, 1::nat] ! n \<longrightarrow>
      [[[1], [2]], [[3], [4::real]]] ! t ! n = [[[1], [2]], [[3], [99]]] ! t ! n"
    by (simp add: less_Suc_eq numeral_2_eq_2 nth_Cons')
  have vl: "length [2, 1::nat] = 2" by simp
  from s1 s2 mean_pool_ignores_padding[OF s1 s2 vl ag] show ?thesis by blast
qed

text \<open>
  C5: when every valid length is at least 1, no entry of the output is the result of a
  division by zero.
\<close>
theorem mean_pool_no_division_by_zero:
  assumes "has_shape3 data T N C" and "0 < T" and "length valid_length = N"
    and "\<forall>n<N. 1 \<le> valid_length ! n"
  shows "\<forall>row \<in> set (MeanPoolingLayer_hybrid_forward data valid_length). None \<notin> set row"
proof
  fix row assume "row \<in> set (MeanPoolingLayer_hybrid_forward data valid_length)"
  then obtain n where n: "n < N" and row: "row = MeanPoolingLayer_hybrid_forward data valid_length ! n"
    using MeanPoolingLayer_hybrid_forward_length[OF assms(1-3)] by (auto simp: in_set_conv_nth)
  from assms(4) n have "real (valid_length ! n) \<noteq> 0" by fastforce
  then show "None \<notin> set row"
    unfolding row MeanPoolingLayer_hybrid_forward_nth[OF assms(1-3) n] by (auto simp: fdiv_def)
qed

theorem mean_pool_no_division_by_zero_witness:
  "has_shape3 [[[1], [2]], [[3], [4::real]]] 2 2 1 \<and> (0::nat) < 2 \<and> length [2, 1::nat] = 2 \<and>
   list_all (\<lambda>n. 1 \<le> [2, 1::nat] ! n) [0..<2] \<and>
   list_all (\<lambda>row. None \<notin> set row)
     (MeanPoolingLayer_hybrid_forward [[[1], [2]], [[3], [4]]] [2, 1])"
proof -
  have s1: "has_shape3 [[[1], [2]], [[3], [4::real]]] 2 2 1" by (simp add: has_shape3_def)
  have T: "(0::nat) < 2" by simp
  have vl: "length [2, 1::nat] = 2" by simp
  have pos: "\<forall>n<2. 1 \<le> [2, 1::nat] ! n" by (simp add: less_Suc_eq numeral_2_eq_2 nth_Cons')
  then have pos': "list_all (\<lambda>n. 1 \<le> [2, 1::nat] ! n) [0..<2]" by (simp add: list_all_iff)
  from s1 T vl pos' mean_pool_no_division_by_zero[OF s1 T vl pos] show ?thesis
    by (simp only: list_all_iff simp_thms)
qed

lemma mean_pool_zero_length_row:
  assumes "has_shape3 data T N C" and "0 < T" and "length valid_length = N"
    and "n < N" and "valid_length ! n = 0"
  shows "MeanPoolingLayer_hybrid_forward data valid_length ! n = replicate C None"
  unfolding MeanPoolingLayer_hybrid_forward_nth[OF assms(1-4)]
  by (simp add: assms(5) fdiv_def map_replicate_const)

subsection \<open>Labels\<close>

text \<open>
  C4: the label of every training row is 0 or 1, and it is 1 exactly when the row's
  toxicity score is at least 0.5 (for a finite score; plus infinity counts as at least
  0.5, minus infinity and NaN do not).
\<close>
theorem target_binarized:
  "length (prepare_train_df train_df) = length train_df \<and>
   (\<forall>i<length train_df.
      snd (prepare_train_df train_df ! i) \<in> {0, 1} \<and>
      (snd (prepare_train_df train_df ! i) = 1 \<longleftrightarrow>
         (case snd (train_df ! i) of Finite score \<Rightarrow> 1 / 2 \<le> score | PosInf \<Rightarrow> True
          | NegInf \<Rightarrow> False | NaN \<Rightarrow> False)))"
proof -
  have ge: "float_ge s (Finite (1 / 2)) =
      (case s of Finite score \<Rightarrow> 1 / 2 \<le> score | PosInf \<Rightarrow> True | NegInf \<Rightarrow> False | NaN \<Rightarrow> False)" for s
    by (cases s) simp_all
  show ?thesis
    by (simp add: prepare_train_df_def binarize_target_def astype_int_def ge)
qed

theorem target_binarized_witness:
  "map snd (prepare_train_df [(Some ''a'', Finite 0.5), (None, Finite 0.49), (Some ''b'', NaN)])
     = [1, 0, 0]"
proof -
  let ?df = "[(Some ''a'', Finite 0.5), (None, Finite 0.49), (Some ''b'', NaN)]"
  note th = target_binarized[of ?df]
  note at = th[THEN conjunct2, rule_format]
  have l: "length (prepare_train_df ?df) = 3" using th by simp
  have e0: "snd (prepare_train_df ?df ! 0) = 1" using at[of 0] by simp
  have e1: "snd (prepare_train_df ?df ! 1) = 0" using at[of 1] by auto
  have e2: "snd (prepare_train_df ?df ! 2) = 0" using at[of 2] by auto
  have "map snd (prepare_train_df ?df) ! i = [1, 0, 0] ! i" if "i < 3" for i
  proof -
    from that have "i = 0 \<or> i = 1 \<or> i = 2" by arith
    then show ?thesis using e0 e1 e2 l by auto
  qed
  then show ?thesis using l by (intro nth_equalityI) simp_all
qed

subsection \<open>Sigmoid\<close>

text \<open>
  C9: the sigmoid of every real logit lies in the closed interval from 0 to 1, and the
  sigmoid of 0 is one half.
\<close>
theorem sigmoid_range:
  "0 \<le> sigmoid x \<and> sigmoid x \<le> 1 \<and> sigmoid 0 = 1 / 2"
proof -
  have "0 < exp (- x)" by simp
  then have "1 \<le> 1 + exp (- x)" and "0 < 1 + exp (- x)" by (simp_all add: add_pos_pos)
  then show ?thesis by (simp add: sigmoid_def divide_le_eq_1)
qed

subsection \<open>Preprocessing has no minimum length\<close>

text \<open>
  C10: for an input string that the tokenizer splits into no tokens, \<open>preprocess\<close> and
  \<open>test_preprocess\<close> return a token sequence of length 0, and the valid length that \<open>Pad\<close>
  reports for that sample, wherever it stands in its batch, is 0.
\<close>
theorem preprocessing_can_return_empty:
  assumes "tokenizer s = []"
  shows "length (fst (preprocess tokenizer vocab (s, label))) = 0 \<and>
         length (test_preprocess tokenizer vocab s) = 0 \<and>
         snd (Pad (before @ test_preprocess tokenizer vocab s # after)) ! length before = 0"
  using assms
  by (simp add: preprocess_def test_preprocess_def vocab_getitem_def length_clip_def Pad_def
                Let_def nth_append)

theorem preprocessing_can_return_empty_witness:
  "(\<lambda>s. if s = [] then [] else [s]) '''' = ([] :: string list) \<and>
   test_preprocess (\<lambda>s. if s = [] then [] else [s]) (\<lambda>_. 0) '''' = [] \<and>
   snd (Pad ([3, 4] # test_preprocess (\<lambda>s. if s = [] then [] else [s]) (\<lambda>_. 0) '''' # [])) = [2, 0]"
proof -
  have h: "(\<lambda>s. if s = [] then [] else [s]) '''' = ([] :: string list)" by simp
  note th = preprocessing_can_return_empty[of "\<lambda>s. if s = [] then [] else [s]" "''''", OF h,
      of "\<lambda>_. 0" "0::int" "[[3, 4]]" "[]"]
  from th have e: "test_preprocess (\<lambda>s. if s = [] then [] else [s]) (\<lambda>_. 0) '''' = []" by simp
  show ?thesis by (simp add: e Pad_def)
qed

subsection \<open>The submission file\<close>

lemma sequential_batches_Nil [simp]: "sequential_batches batch_size [] = []"
  by (subst sequential_batches.simps) simp

lemma sequential_batches_step:
  "0 < batch_size \<Longrightarrow> xs \<noteq> [] \<Longrightarrow>
   sequential_batches batch_size xs =
     take batch_size xs # sequential_batches batch_size (drop batch_size xs)"
  by (subst sequential_batches.simps) simp

lemma concat_sequential_batches:
  "0 < batch_size \<Longrightarrow> concat (sequential_batches batch_size xs) = xs"
proof (induction batch_size xs rule: sequential_batches.induct)
  case (1 batch_size xs)
  show ?case
  proof (cases "xs = []")
    case True
    then show ?thesis by simp
  next
    case False
    with 1 have "concat (sequential_batches batch_size (drop batch_size xs)) = drop batch_size xs"
      by simp
    with False 1(2) show ?thesis
      by (subst sequential_batches.simps) simp
  qed
qed

lemma predict_loop_concat:
  "predict_loop net dl = concat (map (\<lambda>(data, length'). net (ndarray_T data) length') dl)"
proof -
  have "foldl (\<lambda>results (data, length'). results @ net (ndarray_T data) length') acc dl =
        acc @ concat (map (\<lambda>(data, length'). net (ndarray_T data) length') dl)" for acc
    by (induction dl arbitrary: acc) (auto split: prod.splits)
  from this[of "[]"] show ?thesis by (simp add: predict_loop_def)
qed

lemma predictions_ok:
  "list_all (\<lambda>r. length r = 1) results \<Longrightarrow>
   predictions results = Inr (map (\<lambda>r. sigmoid (r ! 0)) results)"
proof (induction results)
  case Nil
  then show ?case by simp
next
  case (Cons r rs)
  then obtain x where "r = [x]" by (cases r) auto
  with Cons show ?case by (simp add: getitem0_def)
qed

text \<open>Position \<open>i\<close> of a concatenation of chunks of size \<open>k\<close> (the last may be shorter).\<close>

lemma concat_chunks_nth:
  assumes "0 < k"
    and "\<forall>b<length yss. length (yss ! b) = length (sequential_batches k xs ! b)"
    and "length yss = length (sequential_batches k xs)"
    and "i < length xs"
  shows "i div k < length yss \<and> i mod k < length (yss ! (i div k)) \<and>
         concat yss ! i = yss ! (i div k) ! (i mod k) \<and>
         sequential_batches k xs ! (i div k) ! (i mod k) = xs ! i"
  using assms
proof (induction k xs arbitrary: yss i rule: sequential_batches.induct)
  case (1 k xs)
  from 1(5) have ne: "xs \<noteq> []" by auto
  have sb: "sequential_batches k xs = take k xs # sequential_batches k (drop k xs)"
    using ne 1(2) by (subst sequential_batches.simps) simp
  from 1(4) sb obtain ys yss' where yss: "yss = ys # yss'"
    and l': "length yss' = length (sequential_batches k (drop k xs))"
    by (cases yss) auto
  from 1(3)[rule_format, of 0] yss sb have lys: "length ys = min k (length xs)" by simp
  have rest: "\<forall>b<length yss'. length (yss' ! b) = length (sequential_batches k (drop k xs) ! b)"
  proof (intro allI impI)
    fix b assume "b < length yss'"
    then have "Suc b < length yss" using yss by simp
    from 1(3)[rule_format, OF this] show "length (yss' ! b) = length (sequential_batches k (drop k xs) ! b)"
      using yss sb by simp
  qed
  show ?case
  proof (cases "i < k")
    case True
    then have "i div k = 0" "i mod k = i" by simp_all
    with True 1(5) yss sb lys show ?thesis by (simp add: nth_append)
  next
    case False
    then have ik: "k \<le> i" by simp
    with 1(5) have kl: "k \<le> length xs" by simp
    have i': "i - k < length (drop k xs)" using 1(5) ik by simp
    have "\<not> (k = 0 \<or> xs = [])" using ne 1(2) by simp
    from 1(1)[OF this 1(2) rest l' i']
    have IH: "(i - k) div k < length yss' \<and> (i - k) mod k < length (yss' ! ((i - k) div k)) \<and>
         concat yss' ! (i - k) = yss' ! ((i - k) div k) ! ((i - k) mod k) \<and>
         sequential_batches k (drop k xs) ! ((i - k) div k) ! ((i - k) mod k) = drop k xs ! (i - k)" .
    have d: "i div k = Suc ((i - k) div k)" using ik 1(2)
      by (simp add: le_div_geq)
    have m: "i mod k = (i - k) mod k" using ik by (simp add: le_mod_geq)
    have lk: "length ys = k" using lys kl by simp
    show ?thesis using IH yss sb d m lk ik kl by (simp add: nth_append)
  qed
qed

lemma length_test_dataset_of:
  "length (test_dataset_of tokenizer vocab test_df) = length test_df"
  by (simp add: test_dataset_of_def)

text \<open>
  C7: when the network returns one row with one logit for every sample of every batch,
  the submission file is written, it has one row per row of the test frame, in the
  same order and with that row's id, and the prediction of row \<open>i\<close> is the sigmoid of the
  logit that the network returned for sample \<open>i\<close>, which is sample \<open>i mod batch_size\<close> of
  batch \<open>i div batch_size\<close>.
\<close>
theorem submission_rows_follow_test_rows:
  assumes "0 < batch_size"
    and "\<forall>b \<in> set (sequential_batches batch_size (test_dataset_of tokenizer vocab test_df)).
           has_shape2 (net (ndarray_T (fst (Pad b))) (snd (Pad b))) (length b) 1"
  shows "\<exists>preds.
           make_submission tokenizer vocab net batch_size test_df =
             Inr ([''id'', ''prediction''], zip (map fst test_df) preds) \<and>
           length preds = length test_df \<and>
           (\<forall>i<length test_df.
              (let b = sequential_batches batch_size (test_dataset_of tokenizer vocab test_df)
                         ! (i div batch_size)
               in b ! (i mod batch_size) = test_dataset_of tokenizer vocab test_df ! i \<and>
                  preds ! i =
                    sigmoid (net (ndarray_T (fst (Pad b))) (snd (Pad b)) ! (i mod batch_size) ! 0)))"
proof -
  define ds where "ds = test_dataset_of tokenizer vocab test_df"
  define bs where "bs = sequential_batches batch_size ds"
  define out where "out = (\<lambda>b. net (ndarray_T (fst (Pad b))) (snd (Pad b)))"
  define results where "results = predict_loop net (DataLoader batch_size Pad ds)"
  define preds where "preds = map (\<lambda>r. sigmoid (r ! 0)) results"
  have shape: "\<forall>b \<in> set bs. has_shape2 (out b) (length b) 1"
    using assms(2) by (simp add: bs_def ds_def out_def)
  have res: "results = concat (map out bs)"
    by (simp add: results_def predict_loop_concat DataLoader_def bs_def out_def o_def
                  case_prod_unfold)
  have ones: "list_all (\<lambda>r. length r = 1) results"
    using shape by (auto simp: res list_all_iff has_shape2_def)
  have lens: "map length (map out bs) = map length bs"
    using shape by (simp add: has_shape2_def)
  have "length results = sum_list (map length (map out bs))"
    by (simp add: res length_concat)
  also have "\<dots> = length (concat bs)" by (simp only: lens length_concat)
  also have "\<dots> = length test_df"
    using assms(1) by (simp add: bs_def concat_sequential_batches ds_def length_test_dataset_of)
  finally have lres: "length results = length test_df" .
  have lpreds: "length preds = length test_df" by (simp add: preds_def lres)
  have sub: "make_submission tokenizer vocab net batch_size test_df =
             Inr ([''id'', ''prediction''], zip (map fst test_df) preds)"
    using predictions_ok[OF ones] lpreds
    by (simp add: make_submission_def Let_def DataFrame_from_dict_def to_csv_def
                  results_def[symmetric] ds_def[symmetric] preds_def[symmetric])
  have pos: "bs ! (i div batch_size) ! (i mod batch_size) = ds ! i \<and>
             preds ! i = sigmoid (out (bs ! (i div batch_size)) ! (i mod batch_size) ! 0)"
    if i: "i < length test_df" for i
  proof -
    have i': "i < length ds" using i by (simp add: ds_def length_test_dataset_of)
    have a: "\<forall>b<length (map out bs). length (map out bs ! b) = length (sequential_batches batch_size ds ! b)"
      using shape by (simp add: bs_def has_shape2_def)
    have b: "length (map out bs) = length (sequential_batches batch_size ds)"
      by (simp add: bs_def)
    from concat_chunks_nth[OF assms(1) a b i']
    have c: "i div batch_size < length bs"
      and d: "concat (map out bs) ! i = map out bs ! (i div batch_size) ! (i mod batch_size)"
      and e: "bs ! (i div batch_size) ! (i mod batch_size) = ds ! i"
      by (simp_all add: bs_def)
    have "preds ! i = sigmoid (results ! i ! 0)" using i lres by (simp add: preds_def)
    with c d e show ?thesis by (simp add: res)
  qed
  show ?thesis
    using sub lpreds pos
    by (intro exI[of _ preds]) (simp add: Let_def ds_def bs_def out_def)
qed

theorem submission_rows_follow_test_rows_witness:
  "make_submission (\<lambda>s. [s]) (\<lambda>t. length t) (\<lambda>data valid_length. map (\<lambda>l. [real l - 1]) valid_length)
     2 [(10::nat, Some ''a''), (11, None), (12, Some ''bc'')]
   = Inr ([''id'', ''prediction''], [(10, sigmoid 0), (11, sigmoid 0), (12, sigmoid 0)])"
proof -
  let ?tok = "\<lambda>s::string. [s]"
  let ?voc = "\<lambda>t::string. length t"
  let ?net = "\<lambda>(data::nat list list) (valid_length::nat list). map (\<lambda>l. [real l - 1]) valid_length"
  let ?df = "[(10::nat, Some ''a''), (11, None), (12, Some ''bc'')]"
  have ds: "test_dataset_of ?tok ?voc ?df = [[1], [3], [2]]"
    by (simp add: test_dataset_of_def test_preprocess_def vocab_getitem_def length_clip_def
                  astype_str_def)
  have sb: "sequential_batches 2 [[Suc 0], [3], [2::nat]] = [[[Suc 0], [3]], [[2]]]"
    by (simp add: sequential_batches_step)
  have h1: "(0::nat) < 2" by simp
  have h2: "\<forall>b \<in> set (sequential_batches 2 (test_dataset_of ?tok ?voc ?df)).
           has_shape2 (?net (ndarray_T (fst (Pad b))) (snd (Pad b))) (length b) 1"
    by (simp add: has_shape2_def Pad_def list_all_iff)
  from submission_rows_follow_test_rows[of 2 ?tok ?voc ?df ?net, OF h1 h2]
  obtain preds where m: "make_submission ?tok ?voc ?net 2 ?df =
             Inr ([''id'', ''prediction''], zip (map fst ?df) preds)"
    and l: "length preds = 3"
    and p: "\<forall>i<3. (let b = sequential_batches 2 (test_dataset_of ?tok ?voc ?df) ! (i div 2)
               in b ! (i mod 2) = test_dataset_of ?tok ?voc ?df ! i \<and>
                  preds ! i = sigmoid (?net (ndarray_T (fst (Pad b))) (snd (Pad b)) ! (i mod 2) ! 0))"
    by auto
  from p[rule_format, of 0] have p0: "preds ! 0 = sigmoid 0" by (simp add: ds sb Pad_def)
  from p[rule_format, of 1] have p1: "preds ! 1 = sigmoid 0" by (simp add: ds sb Pad_def)
  from p[rule_format, of 2] have p2: "preds ! 2 = sigmoid 0" by (simp add: ds sb Pad_def)
  from l obtain a b c where abc: "preds = [a, b, c]"
    by (cases preds; cases "tl preds"; cases "tl (tl preds)") auto
  with p0 p1 p2 have "preds = [sigmoid 0, sigmoid 0, sigmoid 0]" by simp
  with m show ?thesis by simp
qed

subsection \<open>The logged loss\<close>

text \<open>
  C3: a run of the loop on one batch of two samples, of 3 tokens and of 1 token, with
  logging at every batch and a batch loss of 1. The batch array has shape \<open>(2, 3)\<close>, and
  the printed average is the loss divided by 3, the padded length \<^verbatim>\<open>data.shape[1]\<close>,
  not by 2, the number of samples.
\<close>

theorem logged_loss_divides_by_padded_length:
  "length (snd (batchify_fn [([5, 6, 7], 1), ([8], 0)])) = 2 \<and>
   snd (train (\<lambda>net batch. 1) (\<lambda>net batch. net) 1
          (\<lambda>epoch. [batchify_fn [([5, 6, 7], 1), ([8], 0)]]) 1 ())
     = [(0, 1, 1, Some (1 / 3))]"
  by (simp add: train_def train_epoch_def batchify_fn_def Pad_def shape2_def fdiv_def)

subsection \<open>The bucketed batch sampler\<close>

lemma match_bucket_key_less:
  "match_bucket_key keys len = Some k \<Longrightarrow> k < length keys"
  by (induction keys arbitrary: k) (auto split: if_splits)

lemma match_bucket_key_found:
  "\<exists>key \<in> set keys. len \<le> key \<Longrightarrow> match_bucket_key keys len \<noteq> None"
  by (induction keys) auto

lemma foldr_max_ge: "x \<in> set xs \<Longrightarrow> x \<le> foldr max xs (b::nat)"
  by (induction xs) (auto simp: max_def)

lemma foldr_min_le: "foldr min xs (b::nat) \<le> b"
  by (induction xs) (auto simp: min_def)

lemma ConstWidthBucket_has_max:
  "0 < num_buckets \<Longrightarrow> min_lengths \<le> max_lengths \<Longrightarrow>
   max_lengths \<in> set (ConstWidthBucket max_lengths min_lengths num_buckets)"
proof -
  assume a: "0 < num_buckets" "min_lengths \<le> max_lengths"
  let ?w = "max ((1 + max_lengths - min_lengths) div num_buckets) 1"
  have "(\<lambda>i. max (max_lengths - i * ?w) min_lengths) 0 \<in>
        (\<lambda>i. max (max_lengths - i * ?w) min_lengths) ` {0..<num_buckets}"
    using a(1) by (intro imageI) simp
  then show ?thesis using a(2) by (simp add: ConstWidthBucket_def Let_def max_def)
qed

lemma mset_partition_by_key:
  assumes "\<forall>i \<in> set xs. g i < K"
  shows "mset (concat (map (\<lambda>k. filter (\<lambda>i. g i = k) xs) [0..<K])) = mset xs"
proof -
  have key: "mset (concat (map (\<lambda>k. filter (\<lambda>i. g i = k) xs) [0..<K])) =
        mset (filter (\<lambda>i. g i < K) xs)" for K
  proof (induction K)
    case 0
    then show ?case by simp
  next
    case (Suc K)
    have "mset (filter (\<lambda>i. g i < Suc K) xs) =
          mset (filter (\<lambda>i. g i < K) xs) + mset (filter (\<lambda>i. g i = K) xs)"
      by (induction xs) auto
    with Suc show ?case by simp
  qed
  from assms have f: "filter (\<lambda>i. g i < K) xs = xs" by (simp add: filter_id_conv)
  show ?thesis by (simp only: key f)
qed

lemma concat_nonempty_buckets:
  "concat (map snd (filter (\<lambda>(key, sample_ids). sample_ids \<noteq> []) kvs)) = concat (map snd kvs)"
  by (induction kvs) auto

lemma concat_chunks_take:
  "concat (map (\<lambda>j. take step (drop (j * step) xs)) [0..<m]) = take (m * step) xs"
proof (induction m)
  case 0
  then show ?case by simp
next
  case (Suc m)
  have "take (m * step) xs @ take step (drop (m * step) xs) = take (m * step + step) xs"
    by (simp add: take_add)
  with Suc show ?case by (simp add: add.commute)
qed

lemma concat_range_step:
  assumes "0 < step"
  shows "concat (map (\<lambda>b. take step (drop b xs)) (range_step (length xs) step)) = xs"
proof -
  let ?m = "(length xs + step - 1) div step"
  have "length xs \<le> ?m * step"
  proof -
    have "length xs + step - 1 < ?m * step + step"
      using assms by (metis add.commute div_mult_mod_eq mod_less_divisor add_less_cancel_left mult.commute)
    then show ?thesis using assms by simp
  qed
  then show ?thesis
    by (simp add: range_step_def o_def concat_chunks_take)
qed

lemma slice_eq:
  "take (min (b + step) (length xs) - b) (drop b xs) = take step (drop b xs)"
  by (cases "b + step \<le> length xs") (auto simp: min_def)

lemma mset_concat_map_cong:
  assumes "mset xs = mset ys"
  shows "mset (concat (map f xs)) = mset (concat (map f ys))"
proof -
  have "mset (concat (map f zs)) = (\<Sum>z\<in>#mset zs. mset (f z))" for zs
    by (induction zs) simp_all
  then show ?thesis using assms by simp
qed

lemma mset_concat_pointwise:
  "length xss = length yss \<Longrightarrow> \<forall>k<length xss. mset (xss ! k) = mset (yss ! k) \<Longrightarrow>
   mset (concat xss) = mset (concat yss)"
proof (induction xss yss rule: list_induct2)
  case Nil
  then show ?case by simp
next
  case (Cons x xs y ys)
  from Cons.prems have "mset x = mset y" by (auto dest: spec[of _ 0])
  moreover from Cons.prems have "\<forall>k<length xs. mset (xs ! k) = mset (ys ! k)"
    by (auto dest: spec[of _ "Suc k" for k])
  ultimately show ?case using Cons.IH by simp
qed

lemma match_bucket_key_le:
  "match_bucket_key keys len = Some k \<Longrightarrow> len \<le> keys ! k"
  by (induction keys arbitrary: k) (auto split: if_splits)

lemma concat_map_over_concat:
  "concat (map f (concat (map g ks))) = concat (map (\<lambda>k. concat (map f (g k))) ks)"
  by (induction ks) simp_all

lemma concat_standard_slices:
  assumes "length sizes = length ids" and "list_all (\<lambda>b. 0 < b) sizes"
  shows "concat (map (\<lambda>(bucket_id, batch_begin).
                  take (sizes ! bucket_id) (drop batch_begin (ids ! bucket_id)))
             (standard_infos ids sizes)) = concat ids"
proof -
  have "concat (map (\<lambda>(bucket_id, batch_begin).
                  take (sizes ! bucket_id) (drop batch_begin (ids ! bucket_id)))
             (standard_infos ids sizes)) =
        concat (map (\<lambda>k. concat (map (\<lambda>b. take (sizes ! k) (drop b (ids ! k)))
                                  (range_step (length (ids ! k)) (sizes ! k))))
                    [0..<length ids])"
    by (simp add: standard_infos_def concat_map_over_concat o_def)
  also have "\<dots> = concat (map (\<lambda>k. ids ! k) [0..<length ids])"
  proof -
    have "concat (map (\<lambda>b. take (sizes ! k) (drop b (ids ! k)))
                      (range_step (length (ids ! k)) (sizes ! k))) = ids ! k"
      if "k < length ids" for k
      using that assms by (intro concat_range_step) (simp add: list_all_length)
    then have "map (\<lambda>k. concat (map (\<lambda>b. take (sizes ! k) (drop b (ids ! k)))
                                  (range_step (length (ids ! k)) (sizes ! k))))
                    [0..<length ids] = map (\<lambda>k. ids ! k) [0..<length ids]"
      by (intro map_cong) simp_all
    then show ?thesis by (rule arg_cong)
  qed
  also have "\<dots> = concat ids" by (simp add: map_nth)
  finally show ?thesis .
qed

lemma sampler_iter_covers:
  assumes inv: "sampler_inv n s"
    and p1: "\<forall>k xs. mset (sh_ids k xs) = mset xs"
    and p2: "\<forall>xs. mset (sh_infos xs) = mset xs"
  shows "mset (concat (fst (sampler_iter sh_ids sh_infos s))) = mset [0..<n] \<and>
         sampler_inv n (snd (sampler_iter sh_ids sh_infos s))"
proof -
  define ids where "ids = bucket_sample_ids s"
  define sizes where "sizes = bucket_batch_sizes s"
  define ids' where "ids' = map (\<lambda>(k, sample_ids). sh_ids k sample_ids) (enumerate 0 ids)"
  define infos' where "infos' = sh_infos (batch_infos s)"
  define F where "F = (\<lambda>(bucket_id, batch_begin).
                  take (sizes ! bucket_id) (drop batch_begin (ids' ! bucket_id)))"
  from inv have cover: "mset (concat ids) = mset [0..<n]"
    and ls: "length sizes = length ids"
    and pos: "list_all (\<lambda>b. 0 < b) sizes"
    and infos: "mset (batch_infos s) = mset (standard_infos ids sizes)"
    by (simp_all add: sampler_inv_def ids_def sizes_def)
  have l': "length ids' = length ids" by (simp add: ids'_def)
  have nth': "ids' ! k = sh_ids k (ids ! k)" if "k < length ids" for k
    using that by (simp add: ids'_def nth_enumerate_eq)
  have m': "\<forall>k<length ids'. mset (ids' ! k) = mset (ids ! k)"
    using p1 nth' l' by simp
  have len': "length (ids' ! k) = length (ids ! k)" if "k < length ids" for k
    using m' that l' by (metis mset_eq_length)
  have std: "standard_infos ids' sizes = standard_infos ids sizes"
    unfolding standard_infos_def l'
    by (intro arg_cong[where f = concat] map_cong) (simp_all add: len')
  have minfos: "mset infos' = mset (standard_infos ids' sizes)"
    using p2 infos by (simp add: infos'_def std)
  have out: "sampler_iter sh_ids sh_infos s =
             (map F infos', s\<lparr>bucket_sample_ids := ids', batch_infos := infos'\<rparr>)"
    by (simp add: sampler_iter_def Let_def ids'_def ids_def infos'_def F_def sizes_def slice_eq
                  case_prod_unfold)
  have "mset (concat (map F infos')) = mset (concat (map F (standard_infos ids' sizes)))"
    by (rule mset_concat_map_cong[OF minfos])
  also have "\<dots> = mset (concat ids')"
    unfolding F_def using concat_standard_slices[of sizes ids'] ls l' pos by simp
  also have "\<dots> = mset (concat ids)" by (rule mset_concat_pointwise[OF l' m'])
  finally have c: "mset (concat (map F infos')) = mset [0..<n]" using cover by simp
  moreover have "mset (concat ids') = mset [0..<n]"
    using mset_concat_pointwise[OF l' m'] cover by simp
  then have "sampler_inv n (s\<lparr>bucket_sample_ids := ids', batch_infos := infos'\<rparr>)"
    using ls l' pos minfos by (simp add: sampler_inv_def sizes_def)
  ultimately show ?thesis by (simp add: out)
qed

lemma sampler_epochs_cover:
  assumes "sampler_inv n s"
    and "\<forall>e k xs. mset (shuffle_ids e k xs) = mset xs"
    and "\<forall>e xs. mset (shuffle_infos e xs) = mset xs"
  shows "\<forall>batches \<in> set (sampler_epochs shuffle_ids shuffle_infos epochs s).
           mset (concat batches) = mset [0..<n]"
  using assms(1)
proof (induction epochs arbitrary: s)
  case Nil
  then show ?case by simp
next
  case (Cons e epochs)
  from sampler_iter_covers[OF Cons.prems, of "shuffle_ids e" "shuffle_infos e"] assms(2,3)
  have a: "mset (concat (fst (sampler_iter (shuffle_ids e) (shuffle_infos e) s))) = mset [0..<n]"
    and b: "sampler_inv n (snd (sampler_iter (shuffle_ids e) (shuffle_infos e) s))"
    by simp_all
  from Cons.IH[OF b] a show ?case by (simp add: case_prod_unfold)
qed

lemma foldr_min_pos: "0 < b \<Longrightarrow> \<forall>x \<in> set xs. 0 < x \<Longrightarrow> 0 < foldr min xs (b::nat)"
  by (induction xs) (auto simp: min_def)

lemma length_sampler_epochs:
  "length (sampler_epochs shuffle_ids shuffle_infos epochs s) = length epochs"
  by (induction epochs arbitrary: s) (auto split: prod.splits)

lemma FixedBucketSampler_inv:
  assumes ok: "FixedBucketSampler lengths batch_size num_buckets ratio scale_up = Inr s"
  shows "sampler_inv (length lengths) s"
proof -
  define n where "n = length lengths"
  define max_lengths where "max_lengths = foldr max lengths 0"
  define min_lengths where "min_lengths = foldr min lengths max_lengths"
  define keys where "keys = sort (ConstWidthBucket max_lengths min_lengths num_buckets)"
  define sample_bucket where "sample_bucket = map (match_bucket_key keys) lengths"
  define all_ids where
    "all_ids = map (\<lambda>k. filter (\<lambda>i. sample_bucket ! i = Some k) [0..<n]) [0..<length keys]"
  define used where "used = filter (\<lambda>(key, sample_ids). sample_ids \<noteq> []) (zip keys all_ids)"
  define used_keys where "used_keys = map fst used"
  define max_key where "max_key = foldr max used_keys 0"
  define sizes where
    "sizes = map (\<lambda>key. max (scale_up max_key key ratio batch_size) batch_size) used_keys"
  define infos where
    "infos = concat (map (\<lambda>bucket_id. map (\<lambda>i. (bucket_id, i))
                                           (range_step (length (map snd used ! bucket_id))
                                                       (sizes ! bucket_id)))
                         (rev [0..<length used]))"
  define s' where "s' = \<lparr>bucket_keys = used_keys, bucket_sample_ids = map snd used,
                          bucket_batch_sizes = sizes, batch_infos = infos\<rparr>"
  have unf: "FixedBucketSampler lengths batch_size num_buckets ratio scale_up =
     (if lengths = [] \<or> batch_size = 0 \<or> ratio < 0 then Inl AssertionError
      else if min_lengths = 0 \<or> num_buckets = 0 then Inl AssertionError
      else if None \<in> set sample_bucket then Inl NoBucketError
      else Inr s')"
    unfolding FixedBucketSampler_def Let_def
      max_lengths_def[symmetric] min_lengths_def[symmetric] keys_def[symmetric]
      sample_bucket_def[symmetric] n_def[symmetric] all_ids_def[symmetric] used_def[symmetric]
      used_keys_def[symmetric] max_key_def[symmetric] sizes_def[symmetric] infos_def[symmetric]
      s'_def[symmetric]
    by simp
  from ok have bpos: "0 < batch_size" and noNone: "None \<notin> set sample_bucket" and s: "s = s'"
    unfolding unf by (auto split: if_splits)
  have sb: "\<exists>k. sample_bucket ! i = Some k \<and> k < length keys" if "i < n" for i
  proof -
    from that have "sample_bucket ! i \<in> set sample_bucket"
      by (simp add: sample_bucket_def n_def)
    with noNone obtain k where k: "sample_bucket ! i = Some k" by (cases "sample_bucket ! i") auto
    then have "match_bucket_key keys (lengths ! i) = Some k"
      using that by (simp add: sample_bucket_def n_def)
    from match_bucket_key_less[OF this] k show ?thesis by simp
  qed
  have "concat (map snd used) = concat (map snd (zip keys all_ids))"
    unfolding used_def by (rule concat_nonempty_buckets)
  also have "map snd (zip keys all_ids) = all_ids" by (simp add: all_ids_def)
  finally have "mset (concat (map snd used)) = mset (concat all_ids)" by simp
  also have "all_ids =
      map (\<lambda>k. filter (\<lambda>i. the (sample_bucket ! i) = k) [0..<n]) [0..<length keys]"
    unfolding all_ids_def
  proof (intro map_cong refl filter_cong)
    fix k i assume "i \<in> set [0..<n]"
    then have "i < n" by simp
    from sb[OF this] show "(sample_bucket ! i = Some k) = (the (sample_bucket ! i) = k)" by auto
  qed
  also have "mset (concat \<dots>) = mset [0..<n]"
  proof (rule mset_partition_by_key)
    show "\<forall>i \<in> set [0..<n]. the (sample_bucket ! i) < length keys"
    proof
      fix i assume "i \<in> set [0..<n]"
      then have "i < n" by simp
      from sb[OF this] show "the (sample_bucket ! i) < length keys" by auto
    qed
  qed
  finally have cover: "mset (concat (map snd used)) = mset [0..<n]" .
  have ls: "length sizes = length (map snd used)" by (simp add: sizes_def used_keys_def)
  have pos: "list_all (\<lambda>b. 0 < b) sizes"
    using bpos by (auto simp: sizes_def list_all_iff less_max_iff_disj)
  have "mset infos = mset (standard_infos (map snd used) sizes)"
  proof -
    have "mset (concat (map f (rev ks))) = mset (concat (map f ks))"
      for f :: "nat \<Rightarrow> (nat \<times> nat) list" and ks
      by (rule mset_concat_map_cong) simp
    then show ?thesis unfolding infos_def standard_infos_def by simp
  qed
  with cover ls pos show ?thesis by (simp add: sampler_inv_def s s'_def n_def)
qed

text \<open>
  The sampler is built for every dataset it accepts: no sample misses a bucket, since
  the largest length is itself a key.
\<close>

lemma FixedBucketSampler_constructed:
  assumes ne: "lengths \<noteq> []" and lpos: "\<forall>l \<in> set lengths. 0 < l"
    and bpos: "0 < batch_size" and npos: "0 < num_buckets" and rpos: "0 \<le> ratio"
  shows "\<exists>s. FixedBucketSampler lengths batch_size num_buckets ratio scale_up = Inr s"
proof -
  define max_lengths where "max_lengths = foldr max lengths 0"
  define min_lengths where "min_lengths = foldr min lengths max_lengths"
  define keys where "keys = sort (ConstWidthBucket max_lengths min_lengths num_buckets)"
  define sample_bucket where "sample_bucket = map (match_bucket_key keys) lengths"
  have le_max: "l \<le> max_lengths" if "l \<in> set lengths" for l
    using that by (simp add: max_lengths_def foldr_max_ge)
  from ne obtain l where l: "l \<in> set lengths" by (cases lengths) auto
  with lpos le_max[OF l] have "0 < max_lengths" by fastforce
  then have minpos: "min_lengths \<noteq> 0"
    using foldr_min_pos[OF _ lpos, of max_lengths] by (simp add: min_lengths_def)
  have "min_lengths \<le> max_lengths" by (simp add: min_lengths_def foldr_min_le)
  then have "max_lengths \<in> set keys"
    using ConstWidthBucket_has_max[OF npos] by (simp add: keys_def)
  with le_max have found: "match_bucket_key keys l \<noteq> None" if "l \<in> set lengths" for l
    using that by (intro match_bucket_key_found) blast
  then have noNone: "None \<notin> set sample_bucket"
    unfolding sample_bucket_def by (metis (no_types, lifting) imageE list.set_map)
  show ?thesis
    using ne bpos npos rpos minpos noNone
    unfolding FixedBucketSampler_def Let_def
      max_lengths_def[symmetric] min_lengths_def[symmetric] keys_def[symmetric]
      sample_bucket_def[symmetric]
    by simp
qed

text \<open>
  At the notebook's settings (10 buckets, batch size 128, ratio 0.2) and with lengths
  from 1 to 500, the keys and the batch sizes are the ones the notebook printed.
\<close>

lemma notebook_bucket_statistics:
  "sort (ConstWidthBucket 500 1 10) = [50, 100, 150, 200, 250, 300, 350, 400, 450, 500] \<and>
   map (\<lambda>key. max (exact_scale_up 500 key 0.2 128) 128)
       [50, 100, 150, 200, 250, 300, 350, 400, 450, 500]
     = [256, 128, 128, 128, 128, 128, 128, 128, 128, 128]"
  by code_simp

text \<open>
  C8: once the sampler is built, it yields one pass of batches per epoch, and in every
  epoch, whatever permutations the shuffles apply, the batches together hold every index
  of the dataset exactly once.
\<close>
theorem bucket_sampler_yields_each_sample_once:
  assumes "FixedBucketSampler lengths batch_size num_buckets ratio scale_up = Inr s"
    and "\<forall>e k xs. mset (shuffle_ids e k xs) = mset xs"
    and "\<forall>e xs. mset (shuffle_infos e xs) = mset xs"
  shows "length (sampler_epochs shuffle_ids shuffle_infos epochs s) = length epochs \<and>
         (\<forall>batches \<in> set (sampler_epochs shuffle_ids shuffle_infos epochs s).
            mset (concat batches) = mset [0..<length lengths])"
  using sampler_epochs_cover[OF FixedBucketSampler_inv[OF assms(1)] assms(2,3)]
        length_sampler_epochs
  by blast

theorem bucket_sampler_yields_each_sample_once_witness:
  "FixedBucketSampler [3, 1, 4, 1, 5] 2 2 (1 / 2) exact_scale_up =
     Inr \<lparr>bucket_keys = [3, 5], bucket_sample_ids = [[0, 1, 3], [2, 4]],
          bucket_batch_sizes = [2, 2], batch_infos = [(1, 0), (0, 0), (0, 2)]\<rparr> \<and>
   length (sampler_epochs (\<lambda>e k. rev) (\<lambda>e. rev) [0, 1]
        \<lparr>bucket_keys = [3, 5], bucket_sample_ids = [[0, 1, 3], [2, 4]],
         bucket_batch_sizes = [2, 2], batch_infos = [(1, 0), (0, 0), (0, 2)]\<rparr>) = 2 \<and>
   list_all (\<lambda>batches. mset (concat batches) = mset [0..<5])
     (sampler_epochs (\<lambda>e k. rev) (\<lambda>e. rev) [0, 1]
        \<lparr>bucket_keys = [3, 5], bucket_sample_ids = [[0, 1, 3], [2, 4]],
         bucket_batch_sizes = [2, 2], batch_infos = [(1, 0), (0, 0), (0, 2)]\<rparr>)"
proof -
  have h6: "\<forall>(e::nat) (k::nat) xs::nat list. mset (rev xs) = mset xs" by simp
  have h7: "\<forall>(e::nat) xs::(nat \<times> nat) list. mset (rev xs) = mset xs" by simp
  have len: "length [3, 1, 4, 1, 5::nat] = 5" and len2: "length [0, 1::nat] = 2" by simp_all
  have ev: "FixedBucketSampler [3, 1, 4, 1, 5] 2 2 (1 / 2) exact_scale_up =
     Inr \<lparr>bucket_keys = [3, 5], bucket_sample_ids = [[0, 1, 3], [2, 4]],
          bucket_batch_sizes = [2, 2], batch_infos = [(1, 0), (0, 0), (0, 2)]\<rparr>"
    by code_simp
  note th = bucket_sampler_yields_each_sample_once[OF ev h6 h7, of "[0, 1]"]
  from th[THEN conjunct1] have l: "length (sampler_epochs (\<lambda>e k. rev) (\<lambda>e. rev) [0, 1]
        \<lparr>bucket_keys = [3, 5], bucket_sample_ids = [[0, 1, 3], [2, 4]],
         bucket_batch_sizes = [2, 2], batch_infos = [(1, 0), (0, 0), (0, 2)]\<rparr>) = 2"
    by (simp only: len2)
  from th[THEN conjunct2] have "list_all (\<lambda>batches. mset (concat batches) = mset [0..<5])
     (sampler_epochs (\<lambda>e k. rev) (\<lambda>e. rev) [0, 1]
        \<lparr>bucket_keys = [3, 5], bucket_sample_ids = [[0, 1, 3], [2, 4]],
         bucket_batch_sizes = [2, 2], batch_infos = [(1, 0), (0, 0), (0, 2)]\<rparr>)"
    by (simp only: list_all_iff len)
  with ev l show ?thesis by blast
qed

end
